theory Spec2Isabelle
  imports Main "HOL-Library.Sublist"
begin

section \<open>The restaurant reservation system\<close>

text \<open>
  The allocator of the specification is the class \<open>Restaurant\<close> of
  \<open>Restaurant.hpp\<close> and \<open>Restaurant.cpp\<close>: the pool is \<open>tables\<close>, the holders are
  \<open>activeCustomers\<close>, the queue is \<open>waitlist\<close>; \<open>request\<close> is \<open>reserveTable\<close>,
  \<open>release\<close> is \<open>releaseTable\<close>, waitlist reprocessing is \<open>notifyWaitlist\<close> and
  \<open>listWaiting\<close> is \<open>printWaitlist\<close>.

  C++ \<open>int\<close> values are modelled as \<open>int\<close>: the only arithmetic of the class is the
  constructor's counter \<open>i++\<close>, which stays within \<open>initialTableCount + 1\<close>, so it leaves
  the range of \<open>int\<close> only for \<open>initialTableCount = INT_MAX\<close>, a pool that no machine
  holds.
\<close>

subsection \<open>Customers and smart pointers\<close>

text \<open>
  Modelled from the spec: \<open>Customer.hpp\<close> and \<open>Customer.cpp\<close> are not among the
  sources. The class is the Consumer of the specification, documented in the README with
  the member \<open>std::string name\<close>, the constructor \<open>Customer(const std::string&)\<close> and
  \<open>getName()\<close>.

  A \<open>std::shared_ptr<Customer>\<close> or \<open>std::weak_ptr<Customer>\<close> is modelled by the identity
  of the control block it shares, a natural number. Two weak pointers are equivalent
  under \<open>owner_before\<close> exactly when they share the control block, so the comparison of
  \<open>removeElement\<close> is equality of identities. The name of a customer is fixed at
  construction (\<open>Customer\<close> has \<open>getName\<close> only), so names are a function \<open>nm\<close> from
  identities to strings, and \<open>weak_ptr::lock\<close> returning a non-null pointer is a predicate
  \<open>live\<close> on identities; both are parameters of the operations that use them.
\<close>

type_synonym customer = nat

subsection \<open>Tables\<close>

text \<open>
  Modelled from the spec: \<open>Table.hpp\<close> and \<open>Table.cpp\<close> are not among the sources. The
  class is the Resource of the specification, documented in the repository's README with
  the members \<open>int number; bool isAvailable;\<close>, the constructor \<open>Table(int num)\<close>, and
  \<open>reserve()\<close> (mark as occupied), \<open>release()\<close> (mark as available), \<open>getIsAvailable()\<close>,
  \<open>getNumber()\<close>. A table is created free (the first reservation of \<open>main.cpp\<close> is granted
  table 1). \<open>Restaurant\<close> calls \<open>reserve\<close> only on an available table and \<open>release\<close> only
  on an occupied one, so the two failure outcomes of the specification's \<open>occupy\<close> and
  \<open>release\<close> are never reached from it and the two operations are modelled on the flag
  alone. The getters are the record's selectors.
\<close>

record table =
  number :: int
  isAvailable :: bool

definition Table :: "int \<Rightarrow> table" where
  "Table num = \<lparr>number = num, isAvailable = True\<rparr>"

definition reserve :: "table \<Rightarrow> table" where
  "reserve t = t\<lparr>isAvailable := False\<rparr>"

definition release :: "table \<Rightarrow> table" where
  "release t = t\<lparr>isAvailable := True\<rparr>"

subsection \<open>The restaurant and its output\<close>

record restaurant =
  tables :: "table list"
  activeCustomers :: "customer list"
  waitlist :: "customer list"

text \<open>
  The lines written to \<open>cout\<close> by the class, one constructor for each message, carrying
  the values inserted into it.
\<close>

datatype line =
    ReservedLine int string      \<comment> \<open>\<open>Reserved table n for name .\<close>\<close>
  | WaitlistedLine string        \<comment> \<open>\<open>No tables free. Added name to the waitlist.\<close>\<close>
  | ReleasedLine int             \<comment> \<open>\<open>Released table n.\<close>\<close>
  | AlreadyFreeLine int          \<comment> \<open>\<open>Table n was already free.\<close>\<close>
  | WaitingHeader                \<comment> \<open>\<open>The following people are waiting for a table: \<close>\<close>
  | NameLine string              \<comment> \<open>a name printed by \<open>printWaitlist\<close>\<close>

subsection \<open>Construction\<close>

text \<open>
  \<open>for (int i = 1; i <= initialTableCount; i++) tables.push_back(make_unique<Table>(i));\<close>
\<close>

function build_tables :: "int \<Rightarrow> int \<Rightarrow> table list \<Rightarrow> table list" where
  "build_tables i initialTableCount ts =
     (if i \<le> initialTableCount
      then build_tables (i + 1) initialTableCount (ts @ [Table i])
      else ts)"
  by pat_completeness auto
termination
  by (relation "measure (\<lambda>(i, c, ts). nat (c + 1 - i))") auto

declare build_tables.simps [simp del]

definition Restaurant :: "int \<Rightarrow> restaurant" where
  "Restaurant initialTableCount =
     \<lparr>tables = build_tables 1 initialTableCount [], activeCustomers = [], waitlist = []\<rparr>"

subsection \<open>reserveTable\<close>

text \<open>
  The loop of \<open>reserveTable\<close> over \<open>tables\<close>: at the first available table it reserves the
  table and returns; \<open>reserve_scan\<close> gives the number of that table and the updated
  vector, or \<open>None\<close> when the loop ends without a return.
\<close>

fun reserve_scan :: "table list \<Rightarrow> (int \<times> table list) option" where
  "reserve_scan [] = None"
| "reserve_scan (t # ts) =
     (if isAvailable t then Some (number t, reserve t # ts)
      else (case reserve_scan ts of
              None \<Rightarrow> None
            | Some (n, ts') \<Rightarrow> Some (n, t # ts')))"

text \<open>The result is the returned \<open>bool\<close>, the lines printed and the restaurant afterwards.\<close>

definition reserveTable ::
  "(customer \<Rightarrow> string) \<Rightarrow> customer \<Rightarrow> restaurant \<Rightarrow> bool \<times> line list \<times> restaurant" where
  "reserveTable nm pointer r =
     (case reserve_scan (tables r) of
        Some (n, ts') \<Rightarrow>
          (True, [ReservedLine n (nm pointer)],
           r\<lparr>tables := ts', activeCustomers := activeCustomers r @ [pointer]\<rparr>)
      | None \<Rightarrow>
          (False, [WaitlistedLine (nm pointer)],
           r\<lparr>waitlist := waitlist r @ [pointer]\<rparr>))"

subsection \<open>removeElement\<close>

text \<open>
  Modelled from the spec: \<open>removeElement.hpp\<close> is not among the sources; the README
  gives its body:
  \<^verbatim>\<open>vec.erase(std::remove_if(vec.begin(), vec.end(), [&ptr](const weak_ptr<Customer>& element)
     { return !element.owner_before(ptr) && !ptr.owner_before(element); }), vec.end());\<close>
  Its only call is \<open>removeElement(waitlist, waitlist[0])\<close>, where \<open>ptr\<close> is a reference to
  the first element of the vector being compacted. \<open>std::remove_if\<close> finds the first
  element satisfying the predicate, which is element 0 itself, and then walks over the
  rest, moving each element that does not satisfy the predicate to the end of the kept
  prefix. In \<open>remove_if_loop c kept rest\<close>, \<open>kept\<close> is the prefix kept so far and \<open>rest\<close>
  the elements not yet visited; \<open>ptr\<close> reads the present first element of the vector,
  which is the original head \<open>c\<close> until the first kept element overwrites it.
\<close>

fun remove_if_loop :: "customer \<Rightarrow> customer list \<Rightarrow> customer list \<Rightarrow> customer list" where
  "remove_if_loop c kept [] = kept"
| "remove_if_loop c kept (element # rest) =
     (let ptr = (case kept of [] \<Rightarrow> c | d # _ \<Rightarrow> d)
      in if element = ptr then remove_if_loop c kept rest
         else remove_if_loop c (kept @ [element]) rest)"

text \<open>
  \<open>notifyWaitlist\<close> makes the call on a non-empty waitlist only (\<open>waitlist[0]\<close> of an
  empty vector is undefined), so the first equation is never used by it.
\<close>

fun removeElement_head :: "customer list \<Rightarrow> customer list" where
  "removeElement_head [] = []"
| "removeElement_head (c # rest) = remove_if_loop c [] rest"

subsection \<open>notifyWaitlist, releaseTable, printWaitlist\<close>

definition notifyWaitlist ::
  "(customer \<Rightarrow> bool) \<Rightarrow> (customer \<Rightarrow> string) \<Rightarrow> restaurant \<Rightarrow> line list \<times> restaurant" where
  "notifyWaitlist live nm r =
     (case waitlist r of
        [] \<Rightarrow> ([], r)
      | customer # _ \<Rightarrow>
          if live customer
          then (case reserveTable nm customer r of
                  (b, out, r') \<Rightarrow> (out, r'\<lparr>waitlist := removeElement_head (waitlist r')\<rparr>))
          else ([], r))"

text \<open>
  One iteration of the loop of \<open>releaseTable\<close>, at the table with index \<open>i\<close>; the loop has
  no \<open>break\<close>, so it visits every table.
\<close>

definition release_step ::
  "(customer \<Rightarrow> bool) \<Rightarrow> (customer \<Rightarrow> string) \<Rightarrow> int \<Rightarrow> nat \<Rightarrow>
   line list \<times> restaurant \<Rightarrow> line list \<times> restaurant" where
  "release_step live nm tableNumber i s =
     (case s of (out, r) \<Rightarrow>
        let t = tables r ! i in
        if number t = tableNumber
        then if \<not> isAvailable t
             then (case notifyWaitlist live nm (r\<lparr>tables := (tables r)[i := release t]\<rparr>) of
                     (out', r') \<Rightarrow> (out @ [ReleasedLine tableNumber] @ out', r'))
             else (out @ [AlreadyFreeLine tableNumber], r)
        else (out, r))"

definition releaseTable ::
  "(customer \<Rightarrow> bool) \<Rightarrow> (customer \<Rightarrow> string) \<Rightarrow> int \<Rightarrow> restaurant \<Rightarrow> line list \<times> restaurant" where
  "releaseTable live nm tableNumber r =
     fold (release_step live nm tableNumber) [0..<length (tables r)] ([], r)"

fun print_loop :: "(customer \<Rightarrow> bool) \<Rightarrow> (customer \<Rightarrow> string) \<Rightarrow> customer list \<Rightarrow> line list" where
  "print_loop live nm [] = []"
| "print_loop live nm (customer # rest) =
     (if live customer then NameLine (nm customer) # print_loop live nm rest
      else print_loop live nm rest)"

definition printWaitlist ::
  "(customer \<Rightarrow> bool) \<Rightarrow> (customer \<Rightarrow> string) \<Rightarrow> restaurant \<Rightarrow> line list \<times> restaurant" where
  "printWaitlist live nm r = (WaitingHeader # print_loop live nm (waitlist r), r)"

subsection \<open>Sequences of calls\<close>

text \<open>
  A driver such as \<open>main.cpp\<close> calls \<open>reserveTable\<close> for one customer after the other;
  \<open>request_all\<close> collects what each call returns and prints.
\<close>

fun request_all ::
  "(customer \<Rightarrow> string) \<Rightarrow> customer list \<Rightarrow> restaurant \<Rightarrow> (bool \<times> line list) list \<times> restaurant" where
  "request_all nm [] r = ([], r)"
| "request_all nm (p # ps) r =
     (case reserveTable nm p r of
        (b, out, r') \<Rightarrow> (case request_all nm ps r' of (res, r'') \<Rightarrow> ((b, out) # res, r'')))"

text \<open>
  The states a client can reach. A state is the restaurant together with the set \<open>gone\<close>
  of customers whose last \<open>shared_ptr\<close> has been destroyed: \<open>lock\<close> on a weak pointer
  succeeds for the customers outside \<open>gone\<close>. A customer leaves only while
  \<open>activeCustomers\<close> holds no \<open>shared_ptr\<close> to it, and never returns; the caller of
  \<open>reserveTable\<close> passes a \<open>shared_ptr\<close> it holds, so that customer has not left. The
  parameter \<open>G\<close> is the discipline of the client: it calls \<open>reserveTable\<close> for \<open>p\<close> in
  \<open>r\<close> only when \<open>G p r\<close>.
\<close>

inductive reachable_if ::
  "(customer \<Rightarrow> restaurant \<Rightarrow> bool) \<Rightarrow> int \<Rightarrow> customer set \<times> restaurant \<Rightarrow> bool"
  for G :: "customer \<Rightarrow> restaurant \<Rightarrow> bool" and c :: int where
  construct: "reachable_if G c ({}, Restaurant c)"
| request: "reachable_if G c (gone, r) \<Longrightarrow> p \<notin> gone \<Longrightarrow> G p r \<Longrightarrow>
     reachable_if G c (gone, snd (snd (reserveTable nm p r)))"
| release: "reachable_if G c (gone, r) \<Longrightarrow>
     reachable_if G c (gone, snd (releaseTable (\<lambda>x. x \<notin> gone) nm n r))"
| listWaiting: "reachable_if G c (gone, r) \<Longrightarrow>
     reachable_if G c (gone, snd (printWaitlist (\<lambda>x. x \<notin> gone) nm r))"
| leave: "reachable_if G c (gone, r) \<Longrightarrow> p \<notin> set (activeCustomers r) \<Longrightarrow>
     reachable_if G c (insert p gone, r)"

text \<open>Every sequence of calls, and the sequences that request a table only for a
  customer who is neither seated nor waiting.\<close>

definition reachable :: "int \<Rightarrow> customer set \<times> restaurant \<Rightarrow> bool" where
  "reachable c w = reachable_if (\<lambda>p r. True) c w"

definition absent :: "customer \<Rightarrow> restaurant \<Rightarrow> bool" where
  "absent p r = (p \<notin> set (activeCustomers r) \<and> p \<notin> set (waitlist r))"

text \<open>The number of occupied tables.\<close>

definition occupied :: "table list \<Rightarrow> nat" where
  "occupied ts = length (filter (\<lambda>t. \<not> isAvailable t) ts)"

text \<open>The four customers of \<open>main.cpp\<close>, in the order of their creation.\<close>

definition main_names :: "customer \<Rightarrow> string" where
  "main_names p =
     (if p = 1 then ''Morgan'' else if p = 2 then ''Lottie''
      else if p = 3 then ''Nathan'' else ''Dai'')"

text \<open>
  The restaurant of \<open>main.cpp\<close> after its four calls of \<open>reserveTable\<close>: both tables
  taken, by the first two customers, and the other two customers waiting.
\<close>

definition after_reservations :: restaurant where
  "after_reservations =
     \<lparr>tables = [\<lparr>number = 1, isAvailable = False\<rparr>, \<lparr>number = 2, isAvailable = False\<rparr>],
      activeCustomers = [1, 2], waitlist = [3, 4]\<rparr>"

section \<open>Properties of the operations\<close>

subsection \<open>Construction, scanning and removal\<close>

lemma build_tables_eq: "build_tables i c ts = ts @ map Table [i..c]"
proof (induction i c ts rule: build_tables.induct)
  case (1 i c ts)
  show ?case
  proof (cases "i \<le> c")
    case True
    then show ?thesis using 1 by (subst build_tables.simps) (simp add: upto_rec1)
  next
    case False
    then show ?thesis by (subst build_tables.simps) simp
  qed
qed

lemma tables_Restaurant: "tables (Restaurant c) = map Table [1..c]"
  by (simp add: Restaurant_def build_tables_eq)

lemma reserve_scan_None: "reserve_scan ts = None \<longleftrightarrow> (\<forall>t\<in>set ts. \<not> isAvailable t)"
  by (induction ts) (auto split: option.splits)

lemma reserve_scan_first:
  "\<forall>u\<in>set pre. \<not> isAvailable u \<Longrightarrow> isAvailable t \<Longrightarrow>
   reserve_scan (pre @ t # post) = Some (number t, pre @ reserve t # post)"
  by (induction pre) auto

lemma reserve_scan_Some:
  "reserve_scan ts = Some (n, ts') \<Longrightarrow>
   \<exists>pre t post. ts = pre @ t # post \<and> (\<forall>u\<in>set pre. \<not> isAvailable u) \<and> isAvailable t \<and>
      n = number t \<and> ts' = pre @ reserve t # post"
proof (induction ts arbitrary: n ts')
  case Nil
  then show ?case by simp
next
  case (Cons a ts)
  show ?case
  proof (cases "isAvailable a")
    case True
    with Cons.prems have "n = number a" "ts' = reserve a # ts" by auto
    with True show ?thesis by (intro exI[of _ "[]"] exI[of _ a] exI[of _ ts]) simp
  next
    case False
    with Cons.prems obtain ts1 where s: "reserve_scan ts = Some (n, ts1)" and t: "ts' = a # ts1"
      by (auto split: option.splits)
    from Cons.IH[OF s] obtain pre t post where
      "ts = pre @ t # post" "\<forall>u\<in>set pre. \<not> isAvailable u" "isAvailable t" "n = number t"
      "ts1 = pre @ reserve t # post" by blast
    with False t show ?thesis
      by (intro exI[of _ "a # pre"] exI[of _ t] exI[of _ post]) simp
  qed
qed

lemma remove_if_loop_kept:
  "kept \<noteq> [] \<Longrightarrow> remove_if_loop c kept rest = kept @ filter (\<lambda>x. x \<noteq> hd kept) rest"
  by (induction rest arbitrary: kept) (auto split: list.splits)

lemma remove_if_loop_start:
  "remove_if_loop c [] rest =
     (case dropWhile (\<lambda>x. x = c) rest of [] \<Rightarrow> [] | d # rest' \<Rightarrow> d # filter (\<lambda>x. x \<noteq> d) rest')"
  by (induction rest) (auto simp: remove_if_loop_kept)


lemma reserve_scan_numbers:
  "reserve_scan ts = Some (n, ts') \<Longrightarrow> map number ts' = map number ts"
  by (drule reserve_scan_Some) (auto simp: reserve_def)

lemma reserveTable_numbers:
  "map number (tables (snd (snd (reserveTable nm p r)))) = map number (tables r)"
  by (auto simp: reserveTable_def reserve_scan_numbers split: option.splits)

lemma notify_empty: "waitlist r = [] \<Longrightarrow> notifyWaitlist live nm r = ([], r)"
  by (simp add: notifyWaitlist_def)

lemma notify_stale: "waitlist r = h # q \<Longrightarrow> \<not> live h \<Longrightarrow> notifyWaitlist live nm r = ([], r)"
  by (simp add: notifyWaitlist_def)

lemma notify_live:
  "waitlist r = h # q \<Longrightarrow> live h \<Longrightarrow> reserve_scan (tables r) = Some (n, ts') \<Longrightarrow>
   notifyWaitlist live nm r =
     ([ReservedLine n (nm h)],
      r\<lparr>tables := ts', activeCustomers := activeCustomers r @ [h],
        waitlist := remove_if_loop h [] q\<rparr>)"
  by (simp add: notifyWaitlist_def reserveTable_def)

lemma notify_numbers:
  "map number (tables (snd (notifyWaitlist live nm r))) = map number (tables r)"
proof (cases "waitlist r")
  case Nil
  then show ?thesis by (simp add: notifyWaitlist_def)
next
  case (Cons h q)
  obtain b out r' where s: "reserveTable nm h r = (b, out, r')"
    by (cases "reserveTable nm h r")
  with reserveTable_numbers[of nm h r] have "map number (tables r') = map number (tables r)"
    by simp
  with Cons s show ?thesis by (simp add: notifyWaitlist_def)
qed

lemma numbers_update_release:
  "i < length ts \<Longrightarrow> map number (ts[i := release (ts ! i)]) = map number ts"
  by (simp add: map_update release_def list_update_same_conv)

lemma release_step_numbers:
  "i < length (tables r) \<Longrightarrow>
   map number (tables (snd (release_step live nm n i (out, r)))) = map number (tables r)"
  using notify_numbers[of live nm "r\<lparr>tables := (tables r)[i := release (tables r ! i)]\<rparr>"]
  by (auto simp: release_step_def Let_def numbers_update_release split: prod.splits)

lemma fold_release_skip:
  "\<forall>j\<in>set js. number (tables r ! j) \<noteq> n \<Longrightarrow>
   fold (release_step live nm n) js (out, r) = (out, r)"
  by (induction js) (auto simp: release_step_def)

lemma releaseTable_unknown:
  "n \<notin> number ` set (tables r) \<Longrightarrow> releaseTable live nm n r = ([], r)"
  unfolding releaseTable_def
  by (rule fold_release_skip) auto

lemma releaseTable_at:
  assumes d: "distinct (map number (tables r))"
    and i: "i < length (tables r)"
    and n: "number (tables r ! i) = n"
  shows "releaseTable live nm n r = release_step live nm n i ([], r)"
proof -
  have other: "number (tables r ! j) \<noteq> n" if "j < length (tables r)" "j \<noteq> i" for j
  proof
    assume "number (tables r ! j) = n"
    with n that(1) i have "map number (tables r) ! j = map number (tables r) ! i" by simp
    with d that i show False by (simp add: nth_eq_iff_index_eq del: nth_map)
  qed
  have split: "[0..<length (tables r)] = [0..<i] @ i # [Suc i..<length (tables r)]"
    using i by (metis less_imp_le_nat upt_add_eq_append upt_conv_Cons le_add_diff_inverse zero_le)
  obtain out' r' where s: "release_step live nm n i ([], r) = (out', r')"
    by (cases "release_step live nm n i ([], r)")
  have nums: "map number (tables r') = map number (tables r)"
    using release_step_numbers[OF i, of live nm n "[]"] s by simp
  have before: "fold (release_step live nm n) [0..<i] ([], r) = ([], r)"
    by (rule fold_release_skip) (use other i in auto)
  have after: "fold (release_step live nm n) [Suc i..<length (tables r)] (out', r') = (out', r')"
  proof (rule fold_release_skip, rule ballI)
    fix j assume "j \<in> set [Suc i..<length (tables r)]"
    then have j: "j < length (tables r)" "j \<noteq> i" by auto
    from nums j(1) have "number (tables r' ! j) = number (tables r ! j)"
      by (metis length_map nth_map)
    with other[OF j] show "number (tables r' ! j) \<noteq> n" by simp
  qed
  show ?thesis
    unfolding releaseTable_def by (simp add: split before s after)
qed

lemma releaseTable_free:
  "distinct (map number (tables r)) \<Longrightarrow> i < length (tables r) \<Longrightarrow> number (tables r ! i) = n \<Longrightarrow>
   isAvailable (tables r ! i) \<Longrightarrow> releaseTable live nm n r = ([AlreadyFreeLine n], r)"
  by (simp add: releaseTable_at release_step_def)

lemma releaseTable_occupied:
  "distinct (map number (tables r)) \<Longrightarrow> i < length (tables r) \<Longrightarrow> number (tables r ! i) = n \<Longrightarrow>
   \<not> isAvailable (tables r ! i) \<Longrightarrow>
   releaseTable live nm n r =
     (case notifyWaitlist live nm (r\<lparr>tables := (tables r)[i := release (tables r ! i)]\<rparr>) of
        (out', r') \<Rightarrow> (ReleasedLine n # out', r'))"
  by (simp add: releaseTable_at release_step_def)

lemma print_loop_eq:
  "print_loop live nm ws = map (\<lambda>p. NameLine (nm p)) (filter live ws)"
  by (induction ws) auto

subsection \<open>Evaluation\<close>

lemma Restaurant_eq:
  "Restaurant c = \<lparr>tables = map Table [1..c], activeCustomers = [], waitlist = []\<rparr>"
  by (simp add: Restaurant_def build_tables_eq)

lemmas run_defs = Restaurant_eq upto_rec1 Table_def reserveTable_def releaseTable_def
  release_step_def notifyWaitlist_def reserve_def release_def main_names_def printWaitlist_def

subsection \<open>Invariants of the reachable states\<close>

lemma numbers_Restaurant: "map number (tables (Restaurant c)) = [1..c]"
  by (simp add: Restaurant_eq Table_def comp_def)

lemma fold_release_numbers:
  "\<forall>j\<in>set js. j < length (tables r) \<Longrightarrow>
   map number (tables (snd (fold (release_step live nm n) js (out, r)))) = map number (tables r)"
proof (induction js arbitrary: out r)
  case Nil
  then show ?case by simp
next
  case (Cons j js)
  obtain out' r' where s: "release_step live nm n j (out, r) = (out', r')"
    by (cases "release_step live nm n j (out, r)")
  from Cons.prems have j: "j < length (tables r)" by simp
  have nums: "map number (tables r') = map number (tables r)"
    using release_step_numbers[OF j, of live nm n out] s by simp
  then have "length (tables r') = length (tables r)" by (metis length_map)
  with Cons.prems have "\<forall>k\<in>set js. k < length (tables r')" by simp
  from Cons.IH[OF this, of out'] nums s show ?case by simp
qed

lemma releaseTable_numbers:
  "map number (tables (snd (releaseTable live nm n r))) = map number (tables r)"
  unfolding releaseTable_def by (rule fold_release_numbers) simp

lemma reachable_numbers: "reachable_if G c w \<Longrightarrow> map number (tables (snd w)) = [1..c]"
proof (induction rule: reachable_if.induct)
  case construct
  show ?case by (simp add: numbers_Restaurant)
next
  case (request gone r p nm)
  then show ?case by (simp add: reserveTable_numbers)
next
  case (release gone r nm n)
  then show ?case by (simp add: releaseTable_numbers)
next
  case (listWaiting gone r nm)
  then show ?case by (simp add: printWaitlist_def)
next
  case (leave gone r p)
  then show ?case by simp
qed

lemma reachable_distinct: "reachable_if G c (g, r) \<Longrightarrow> distinct (map number (tables r))"
  by (drule reachable_numbers) simp

lemma occupied_release:
  "i < length ts \<Longrightarrow> \<not> isAvailable (ts ! i) \<Longrightarrow>
   Suc (occupied (ts[i := release (ts ! i)])) = occupied ts"
proof (induction ts arbitrary: i)
  case Nil
  then show ?case by simp
next
  case (Cons t ts)
  show ?case
  proof (cases i)
    case 0
    with Cons.prems show ?thesis by (simp add: occupied_def release_def)
  next
    case (Suc k)
    with Cons.prems have "Suc (occupied (ts[k := release (ts ! k)])) = occupied ts"
      by (intro Cons.IH) simp_all
    with Suc show ?thesis by (simp add: occupied_def)
  qed
qed

lemma occupied_reserve_scan:
  "reserve_scan ts = Some (n, ts') \<Longrightarrow> occupied ts' = Suc (occupied ts)"
  by (drule reserve_scan_Some) (auto simp: occupied_def reserve_def)


lemma regrant_Some:
  assumes "i < length ts"
  shows "\<exists>n' ts'. reserve_scan (ts[i := release (ts ! i)]) = Some (n', ts')"
proof -
  have "release (ts ! i) \<in> set (ts[i := release (ts ! i)])"
    using assms by (simp add: set_update_memI)
  moreover have "isAvailable (release (ts ! i))" by (simp add: release_def)
  ultimately have "reserve_scan (ts[i := release (ts ! i)]) \<noteq> None"
    by (auto simp: reserve_scan_None)
  then show ?thesis by auto
qed

lemma regrant_same:
  assumes i: "i < length ts" and full: "\<forall>t\<in>set ts. \<not> isAvailable t"
  shows "reserve_scan (ts[i := release (ts ! i)]) = Some (number (ts ! i), ts)"
proof -
  have upd: "ts[i := release (ts ! i)] = take i ts @ release (ts ! i) # drop (Suc i) ts"
    using i by (simp add: upd_conv_take_nth_drop)
  have pre: "\<forall>u\<in>set (take i ts). \<not> isAvailable u"
    using full by (meson in_set_takeD)
  have av: "isAvailable (release (ts ! i))" by (simp add: release_def)
  have "\<not> isAvailable (ts ! i)" using full i by simp
  then have restored: "reserve (release (ts ! i)) = ts ! i"
    by (simp add: reserve_def release_def)
  have "reserve_scan (ts[i := release (ts ! i)]) =
          Some (number (release (ts ! i)), take i ts @ reserve (release (ts ! i)) # drop (Suc i) ts)"
    unfolding upd by (rule reserve_scan_first[OF pre av])
  also have "number (release (ts ! i)) = number (ts ! i)" by (simp add: release_def)
  also have "take i ts @ reserve (release (ts ! i)) # drop (Suc i) ts = ts"
    unfolding restored using i by (simp add: id_take_nth_drop[symmetric])
  finally show ?thesis .
qed

text \<open>What a call of releaseTable does, when the numbers of the tables are distinct.\<close>

lemma releaseTable_effect:
  assumes d: "distinct (map number (tables r))"
  shows "snd (releaseTable live nm n r) = r \<or>
    (\<exists>i. i < length (tables r) \<and> number (tables r ! i) = n \<and> \<not> isAvailable (tables r ! i) \<and>
       ((waitlist r = [] \<or> \<not> live (hd (waitlist r))) \<and>
          snd (releaseTable live nm n r) = r\<lparr>tables := (tables r)[i := release (tables r ! i)]\<rparr>
        \<or> (\<exists>h q n' ts'. waitlist r = h # q \<and> live h \<and>
              reserve_scan ((tables r)[i := release (tables r ! i)]) = Some (n', ts') \<and>
              snd (releaseTable live nm n r) =
                r\<lparr>tables := ts', activeCustomers := activeCustomers r @ [h],
                  waitlist := remove_if_loop h [] q\<rparr>)))"
proof (cases "n \<in> number ` set (tables r)")
  case False
  then show ?thesis by (simp add: releaseTable_unknown)
next
  case True
  then obtain i where i: "i < length (tables r)" "number (tables r ! i) = n"
    by (auto simp: in_set_conv_nth)
  show ?thesis
  proof (cases "isAvailable (tables r ! i)")
    case True
    with d i show ?thesis by (simp add: releaseTable_free)
  next
    case occ: False
    let ?r1 = "r\<lparr>tables := (tables r)[i := release (tables r ! i)]\<rparr>"
    have rel: "releaseTable live nm n r =
        (case notifyWaitlist live nm ?r1 of (out', r') \<Rightarrow> (ReleasedLine n # out', r'))"
      using d i occ by (rule releaseTable_occupied)
    show ?thesis
    proof (cases "waitlist r")
      case Nil
      then have "snd (releaseTable live nm n r) = ?r1"
        by (simp add: rel notify_empty)
      with i occ Nil show ?thesis by blast
    next
      case (Cons h q)
      show ?thesis
      proof (cases "live h")
        case False
        with Cons have "snd (releaseTable live nm n r) = ?r1"
          by (simp add: rel notify_stale)
        with i occ Cons False show ?thesis by auto
      next
        case True
        from regrant_Some[OF i(1)] obtain n' ts' where
          s: "reserve_scan ((tables r)[i := release (tables r ! i)]) = Some (n', ts')" by blast
        have "notifyWaitlist live nm ?r1 =
            ([ReservedLine n' (nm h)],
             ?r1\<lparr>tables := ts', activeCustomers := activeCustomers ?r1 @ [h],
                  waitlist := remove_if_loop h [] q\<rparr>)"
          by (rule notify_live) (use Cons True s in simp_all)
        then have "snd (releaseTable live nm n r) =
            r\<lparr>tables := ts', activeCustomers := activeCustomers r @ [h],
              waitlist := remove_if_loop h [] q\<rparr>"
          by (simp add: rel)
        with i occ Cons True s show ?thesis by blast
      qed
    qed
  qed
qed


lemma remove_if_loop_distinct:
  "h \<notin> set q \<Longrightarrow> distinct q \<Longrightarrow> remove_if_loop h [] q = q"
  by (cases q) (auto simp: remove_if_loop_kept filter_id_conv)

lemma remove_if_loop_subseq: "subseq (remove_if_loop h [] q) q"
proof (cases "dropWhile (\<lambda>x. x = h) q")
  case Nil
  show ?thesis unfolding remove_if_loop_start Nil by simp
next
  case (Cons d rest)
  have "subseq (d # filter (\<lambda>x. x \<noteq> d) rest) (d # rest)" by simp
  also have "subseq (d # rest) q"
    using suffix_dropWhile[of "\<lambda>x. x = h" q] unfolding Cons by (rule suffix_imp_subseq)
  finally show ?thesis unfolding remove_if_loop_start Cons by simp
qed

lemma reachable_occupied:
  "reachable_if G c w \<Longrightarrow> occupied (tables (snd w)) \<le> length (activeCustomers (snd w))"
proof (induction rule: reachable_if.induct)
  case construct
  show ?case by (simp add: Restaurant_eq occupied_def Table_def)
next
  case (request gone r p nm)
  then show ?case
    by (auto simp: reserveTable_def occupied_reserve_scan split: option.splits)
next
  case (release gone r nm n)
  have d: "distinct (map number (tables r))" using release.hyps by (rule reachable_distinct)
  from releaseTable_effect[OF d, of "\<lambda>x. x \<notin> gone" nm n] release.IH
  show ?case
    using occupied_release[of _ "tables r"]
    by (auto simp: occupied_reserve_scan) (metis Suc_leD)+
next
  case (listWaiting gone r nm)
  then show ?case by (simp add: printWaitlist_def)
next
  case (leave gone r p)
  then show ?case by simp
qed

lemma reachable_full:
  "reachable_if G c w \<Longrightarrow>
   waitlist (snd w) = [] \<or> hd (waitlist (snd w)) \<in> fst w \<or>
   (\<forall>t\<in>set (tables (snd w)). \<not> isAvailable t)"
proof (induction rule: reachable_if.induct)
  case construct
  show ?case by (simp add: Restaurant_eq)
next
  case (request gone r p nm)
  show ?case
  proof (cases "reserve_scan (tables r)")
    case None
    then have "\<forall>t\<in>set (tables r). \<not> isAvailable t" by (simp add: reserve_scan_None)
    then show ?thesis unfolding reserveTable_def None by simp
  next
    case (Some a)
    then have "\<not> (\<forall>t\<in>set (tables r). \<not> isAvailable t)"
      using reserve_scan_None[of "tables r"] by simp
    with request.IH Some show ?thesis
      by (auto simp: reserveTable_def split: prod.splits)
  qed
next
  case (release gone r nm n)
  have d: "distinct (map number (tables r))" using release.hyps by (rule reachable_distinct)
  let ?r' = "snd (releaseTable (\<lambda>x. x \<notin> gone) nm n r)"
  from releaseTable_effect[OF d, of "\<lambda>x. x \<notin> gone" nm n]
  consider (same) "?r' = r"
    | (freed) i where "waitlist r = [] \<or> hd (waitlist r) \<in> gone"
        "?r' = r\<lparr>tables := (tables r)[i := release (tables r ! i)]\<rparr>"
    | (granted) i h q n' ts' where "i < length (tables r)" "waitlist r = h # q" "h \<notin> gone"
        "reserve_scan ((tables r)[i := release (tables r ! i)]) = Some (n', ts')"
        "?r' = r\<lparr>tables := ts', activeCustomers := activeCustomers r @ [h],
                  waitlist := remove_if_loop h [] q\<rparr>"
    by blast
  then show ?case
  proof cases
    case same
    with release.IH show ?thesis by simp
  next
    case freed
    then show ?thesis by auto
  next
    case granted
    with release.IH have full: "\<forall>t\<in>set (tables r). \<not> isAvailable t" by simp
    from regrant_same[OF granted(1) full] granted(4) have "ts' = tables r" by simp
    with granted(5) full show ?thesis by simp
  qed
next
  case (listWaiting gone r nm)
  then show ?case by (simp add: printWaitlist_def)
next
  case (leave gone r p)
  then show ?case by auto
qed

lemma reachable_distinct_customers:
  "reachable_if absent c w \<Longrightarrow> distinct (activeCustomers (snd w) @ waitlist (snd w))"
proof (induction rule: reachable_if.induct)
  case construct
  show ?case by (simp add: Restaurant_eq)
next
  case (request gone r p nm)
  then show ?case
    by (auto simp: reserveTable_def absent_def split: option.splits)
next
  case (release gone r nm n)
  have d: "distinct (map number (tables r))" using release.hyps by (rule reachable_distinct)
  from releaseTable_effect[OF d, of "\<lambda>x. x \<notin> gone" nm n] release.IH
  show ?case by (auto simp: remove_if_loop_distinct)
next
  case (listWaiting gone r nm)
  then show ?case by (simp add: printWaitlist_def)
next
  case (leave gone r p)
  then show ?case by simp
qed

subsection \<open>The run of \<open>main.cpp\<close>\<close>

lemma main_reservations:
  "request_all main_names [1, 2, 3, 4] (Restaurant 2) =
     ([(True, [ReservedLine 1 ''Morgan'']), (True, [ReservedLine 2 ''Lottie'']),
       (False, [WaitlistedLine ''Nathan'']), (False, [WaitlistedLine ''Dai''])],
      after_reservations)"
  by (simp add: run_defs after_reservations_def)

lemma notify_active_prefix:
  "prefix (activeCustomers r) (activeCustomers (snd (notifyWaitlist live nm r)))"
  by (auto simp: notifyWaitlist_def reserveTable_def split: list.splits option.splits)

subsection \<open>Sequences of requests\<close>

lemma reachable_request_all:
  "reachable_if (\<lambda>p r. True) c (gone, r) \<Longrightarrow> \<forall>p\<in>set ps. p \<notin> gone \<Longrightarrow>
   reachable_if (\<lambda>p r. True) c (gone, snd (request_all nm ps r))"
proof (induction ps arbitrary: r)
  case Nil
  then show ?case by simp
next
  case (Cons p ps)
  from Cons.prems have "reachable_if (\<lambda>p r. True) c (gone, snd (snd (reserveTable nm p r)))"
    by (intro reachable_if.request) simp_all
  from Cons.IH[OF this] Cons.prems(2) show ?case
    by (simp add: case_prod_beta)
qed

lemma reachable_after_reservations: "reachable 2 ({}, after_reservations)"
proof -
  have "reachable_if (\<lambda>p r. True) 2 ({}, snd (request_all main_names [1, 2, 3, 4] (Restaurant 2)))"
    by (rule reachable_request_all) (simp_all add: reachable_if.construct)
  then show ?thesis unfolding main_reservations reachable_def by simp
qed

lemma request_all_append:
  "request_all nm (ps @ qs) r =
     (case request_all nm ps r of
        (res, r1) \<Rightarrow> (case request_all nm qs r1 of (res2, r2) \<Rightarrow> (res @ res2, r2)))"
  by (induction ps arbitrary: r) (auto split: prod.splits)

lemma reserveTable_first:
  "tables r = pre @ t # post \<Longrightarrow> \<forall>u\<in>set pre. \<not> isAvailable u \<Longrightarrow> isAvailable t \<Longrightarrow>
   reserveTable nm p r =
     (True, [ReservedLine (number t) (nm p)],
      r\<lparr>tables := pre @ reserve t # post, activeCustomers := activeCustomers r @ [p]\<rparr>)"
  by (simp add: reserveTable_def reserve_scan_first)

lemma reserveTable_none:
  "\<forall>t\<in>set (tables r). \<not> isAvailable t \<Longrightarrow>
   reserveTable nm p r = (False, [WaitlistedLine (nm p)], r\<lparr>waitlist := waitlist r @ [p]\<rparr>)"
  using reserve_scan_None[of "tables r"] by (simp add: reserveTable_def)

lemma request_all_free:
  assumes "tables r = map (\<lambda>j. reserve (Table j)) seated @ map Table free"
    and "length ps \<le> length free"
  shows "request_all nm ps r =
     (map (\<lambda>(j, p). (True, [ReservedLine j (nm p)])) (zip free ps),
      r\<lparr>tables := map (\<lambda>j. reserve (Table j)) (seated @ take (length ps) free) @
                   map Table (drop (length ps) free),
        activeCustomers := activeCustomers r @ ps\<rparr>)"
  using assms
proof (induction ps arbitrary: seated free r)
  case Nil
  then show ?case by simp
next
  case (Cons p ps)
  from Cons.prems(2) obtain j rest where free: "free = j # rest" by (cases free) auto
  let ?pre = "map (\<lambda>j. reserve (Table j)) seated"
  let ?r' = "r\<lparr>tables := ?pre @ reserve (Table j) # map Table rest,
                activeCustomers := activeCustomers r @ [p]\<rparr>"
  have t: "tables r = ?pre @ Table j # map Table rest"
    using Cons.prems(1) by (simp add: free)
  have first: "reserveTable nm p r = (True, [ReservedLine j (nm p)], ?r')"
    using reserveTable_first[OF t, of nm p] by (simp add: reserve_def Table_def)
  have t': "tables ?r' = map (\<lambda>j. reserve (Table j)) (seated @ [j]) @ map Table rest"
    by simp
  have "length ps \<le> length rest" using Cons.prems(2) by (simp add: free)
  from Cons.IH[OF t' this] show ?case
    by (simp add: first free)
qed

lemma request_all_Restaurant:
  assumes "length ps \<le> nat c"
  shows "request_all nm ps (Restaurant c) =
     (map (\<lambda>(j, p). (True, [ReservedLine j (nm p)])) (zip [1..c] ps),
      \<lparr>tables = map (\<lambda>j. reserve (Table j)) (take (length ps) [1..c]) @
                  map Table (drop (length ps) [1..c]),
        activeCustomers = ps, waitlist = []\<rparr>)"
proof -
  have t: "tables (Restaurant c) = map (\<lambda>j. reserve (Table j)) [] @ map Table [1..c]"
    by (simp add: tables_Restaurant)
  have l: "length ps \<le> length [1..c]" using assms by simp
  show ?thesis
    unfolding request_all_free[OF t l] by (simp add: Restaurant_eq)
qed

lemma request_all_overflow:
  assumes "length ps = nat c"
  shows "request_all nm (ps @ [q]) (Restaurant c) =
     (map (\<lambda>(j, p). (True, [ReservedLine j (nm p)])) (zip [1..c] ps) @
        [(False, [WaitlistedLine (nm q)])],
      \<lparr>tables = map (\<lambda>j. reserve (Table j)) [1..c], activeCustomers = ps, waitlist = [q]\<rparr>)"
proof -
  let ?r = "\<lparr>tables = map (\<lambda>j. reserve (Table j)) [1..c], activeCustomers = ps, waitlist = []\<rparr>"
  have "length ps = length [1..c]" using assms by simp
  then have a: "request_all nm ps (Restaurant c) =
     (map (\<lambda>(j, p). (True, [ReservedLine j (nm p)])) (zip [1..c] ps), ?r)"
    using request_all_Restaurant[of ps c nm] assms by simp
  have "\<forall>t\<in>set (tables ?r). \<not> isAvailable t" by (auto simp: reserve_def)
  then have "reserveTable nm q ?r =
      (False, [WaitlistedLine (nm q)], ?r\<lparr>waitlist := waitlist ?r @ [q]\<rparr>)"
    by (rule reserveTable_none)
  then show ?thesis
    by (simp add: request_all_append a)
qed


lemma first_free_is_lowest:
  assumes "tables r = pre @ t # post" and "\<forall>u\<in>set pre. \<not> isAvailable u"
    and "sorted (map number (tables r))"
  shows "\<forall>u\<in>set (tables r). isAvailable u \<longrightarrow> number t \<le> number u"
proof (intro ballI impI)
  fix u assume u: "u \<in> set (tables r)" "isAvailable u"
  with assms(1,2) have "u = t \<or> u \<in> set post" by auto
  moreover have "\<forall>v\<in>set post. number t \<le> number v"
    using assms(3) unfolding assms(1) by (simp add: sorted_append)
  ultimately show "number t \<le> number u" by auto
qed

subsection \<open>Release with a live head of the waitlist\<close>

text \<open>
  In a reachable state a live head of the waitlist means that every table is occupied, so
  the table that \<open>releaseTable\<close> frees is the one that \<open>notifyWaitlist\<close> grants.
\<close>

lemma release_regrants_freed_table:
  assumes "reachable c (gone, r)"
    and "i < length (tables r)" and "number (tables r ! i) = n"
    and "\<not> isAvailable (tables r ! i)"
    and "waitlist r = h # q" and "h \<notin> gone"
  shows "releaseTable (\<lambda>x. x \<notin> gone) nm n r =
      ([ReleasedLine n, ReservedLine n (nm h)],
       r\<lparr>activeCustomers := activeCustomers r @ [h], waitlist := removeElement_head (h # q)\<rparr>) \<and>
    subseq (removeElement_head (h # q)) q \<and>
    (distinct (h # q) \<longrightarrow> removeElement_head (h # q) = q)"
proof -
  let ?live = "\<lambda>x. x \<notin> gone"
  let ?r1 = "r\<lparr>tables := (tables r)[i := release (tables r ! i)]\<rparr>"
  from assms(1) have re: "reachable_if (\<lambda>p r. True) c (gone, r)" by (simp add: reachable_def)
  then have d: "distinct (map number (tables r))" by (rule reachable_distinct)
  from reachable_full[OF re] assms(5,6) have full: "\<forall>t\<in>set (tables r). \<not> isAvailable t"
    by simp
  have scan: "reserve_scan (tables ?r1) = Some (n, tables r)"
    using regrant_same[OF assms(2) full] assms(3) by simp
  have "notifyWaitlist ?live nm ?r1 =
      ([ReservedLine n (nm h)],
       ?r1\<lparr>tables := tables r, activeCustomers := activeCustomers ?r1 @ [h],
           waitlist := remove_if_loop h [] q\<rparr>)"
    by (rule notify_live) (use assms(5,6) scan in simp_all)
  with releaseTable_occupied[OF d assms(2-4), of ?live nm]
  have "releaseTable ?live nm n r =
      ([ReleasedLine n, ReservedLine n (nm h)],
       r\<lparr>activeCustomers := activeCustomers r @ [h], waitlist := removeElement_head (h # q)\<rparr>)"
    by simp
  then show ?thesis
    by (simp add: remove_if_loop_subseq remove_if_loop_distinct)
qed

section \<open>The claims\<close>

text \<open>
  C10. \<open>printWaitlist\<close> prints, after its header, the names of the entries of the waitlist
  in the order of the waitlist, leaving out every entry whose customer no longer exists;
  it leaves the restaurant as it was, so a second call right after the first prints the
  same lines.
\<close>

theorem printWaitlist_names_in_order:
  "printWaitlist live nm r =
     (WaitingHeader # map (\<lambda>p. NameLine (nm p)) (filter live (waitlist r)), r) \<and>
   fst (printWaitlist live nm (snd (printWaitlist live nm r))) = fst (printWaitlist live nm r)"
  by (simp add: printWaitlist_def print_loop_eq)

theorem printWaitlist_names_in_order_witness:
  "printWaitlist (\<lambda>p. p \<noteq> 3) main_names
     \<lparr>tables = [], activeCustomers = [], waitlist = [3, 4, 2]\<rparr> =
     ([WaitingHeader, NameLine ''Dai'', NameLine ''Lottie''],
      \<lparr>tables = [], activeCustomers = [], waitlist = [3, 4, 2]\<rparr>)"
  using printWaitlist_names_in_order
    [of "\<lambda>p. p \<noteq> 3" main_names "\<lparr>tables = [], activeCustomers = [], waitlist = [3, 4, 2]\<rparr>"]
  by (simp add: main_names_def)

subsection \<open>Release of an unknown table\<close>

text \<open>
  C6, as stated: \<open>releaseTable\<close> with a number that no table of the pool has fails with
  an error. The code has no error path: the loop finds no table with that number and the
  call returns, having printed nothing and changed nothing. Here with number 5 in the
  restaurant of two tables.
\<close>

theorem release_unknown_counterexample:
  "5 \<notin> number ` set (tables (Restaurant 2)) \<and>
   releaseTable (\<lambda>p. True) main_names 5 (Restaurant 2) = ([], Restaurant 2)"
  by (simp add: run_defs)

text \<open>
  C6, amended: for every number that is not the number of a table of the pool,
  \<open>releaseTable\<close> returns normally, prints nothing and leaves the restaurant unchanged.
\<close>

theorem release_unknown_is_silent:
  "n \<notin> number ` set (tables r) \<Longrightarrow> releaseTable live nm n r = ([], r)"
  by (rule releaseTable_unknown)

theorem release_unknown_is_silent_witness:
  "7 \<notin> number ` set (tables after_reservations) \<and>
   releaseTable (\<lambda>p. True) main_names 7 after_reservations = ([], after_reservations)"
proof -
  have h: "7 \<notin> number ` set (tables after_reservations)"
    by (simp add: after_reservations_def)
  show ?thesis
    using h release_unknown_is_silent [OF h, of "\<lambda>p. True" main_names] by simp
qed

subsection \<open>Release of an occupied table\<close>

text \<open>
  C2, as stated: releasing an occupied table removes its former holder from
  \<open>activeCustomers\<close>. The single customer of a restaurant with one table is seated at
  table 1; after \<open>releaseTable(1)\<close> the table is free and the customer is still listed.
\<close>

theorem release_keeps_holder_counterexample:
  "snd (request_all main_names [1] (Restaurant 1)) =
     \<lparr>tables = [\<lparr>number = 1, isAvailable = False\<rparr>], activeCustomers = [1], waitlist = []\<rparr> \<and>
   releaseTable (\<lambda>p. True) main_names 1 (snd (request_all main_names [1] (Restaurant 1))) =
     ([ReleasedLine 1],
      \<lparr>tables = [\<lparr>number = 1, isAvailable = True\<rparr>], activeCustomers = [1], waitlist = []\<rparr>)"
  by (simp add: run_defs)

text \<open>
  C2, amended: for every call of \<open>releaseTable\<close> with the number of an occupied table
  (the numbers of the pool being distinct, as they are in every reachable state), the
  table is marked free, \<open>activeCustomers\<close> and \<open>waitlist\<close> are left as they are, and
  then \<open>notifyWaitlist\<close> runs on that state; no holder is removed, the holders before
  the call are a prefix of the holders after it.
\<close>

theorem release_frees_then_notifies:
  assumes "distinct (map number (tables r))"
    and "i < length (tables r)" and "number (tables r ! i) = n"
    and "\<not> isAvailable (tables r ! i)"
    and "r1 = r\<lparr>tables := (tables r)[i := release (tables r ! i)]\<rparr>"
  shows "isAvailable (tables r1 ! i) \<and> activeCustomers r1 = activeCustomers r \<and>
    waitlist r1 = waitlist r \<and>
    releaseTable live nm n r =
      (ReleasedLine n # fst (notifyWaitlist live nm r1), snd (notifyWaitlist live nm r1)) \<and>
    prefix (activeCustomers r) (activeCustomers (snd (releaseTable live nm n r)))"
proof -
  have rel: "releaseTable live nm n r =
      (ReleasedLine n # fst (notifyWaitlist live nm r1), snd (notifyWaitlist live nm r1))"
    using releaseTable_occupied[OF assms(1-4), of live nm] unfolding assms(5)
    by (simp add: case_prod_beta)
  have "prefix (activeCustomers r1) (activeCustomers (snd (notifyWaitlist live nm r1)))"
    by (rule notify_active_prefix)
  then have "prefix (activeCustomers r) (activeCustomers (snd (releaseTable live nm n r)))"
    by (simp add: rel assms(5))
  with rel assms(2) show ?thesis by (simp add: assms(5) release_def)
qed

theorem release_frees_then_notifies_witness:
  "releaseTable (\<lambda>p. True) main_names 1 after_reservations =
     ([ReleasedLine 1, ReservedLine 1 ''Nathan''],
      \<lparr>tables = [\<lparr>number = 1, isAvailable = False\<rparr>, \<lparr>number = 2, isAvailable = False\<rparr>],
        activeCustomers = [1, 2, 3], waitlist = [4]\<rparr>) \<and>
   prefix (activeCustomers after_reservations)
     (activeCustomers (snd (releaseTable (\<lambda>p. True) main_names 1 after_reservations)))"
proof -
  let ?r1 = "after_reservations\<lparr>tables :=
    (tables after_reservations)[0 := release (tables after_reservations ! 0)]\<rparr>"
  have h1: "distinct (map number (tables after_reservations))"
    and h2: "0 < length (tables after_reservations)"
    and h3: "number (tables after_reservations ! 0) = 1"
    and h4: "\<not> isAvailable (tables after_reservations ! 0)"
    by (simp_all add: after_reservations_def)
  have n: "notifyWaitlist (\<lambda>p. True) main_names ?r1 =
     ([ReservedLine 1 ''Nathan''],
      \<lparr>tables = [\<lparr>number = 1, isAvailable = False\<rparr>, \<lparr>number = 2, isAvailable = False\<rparr>],
        activeCustomers = [1, 2, 3], waitlist = [4]\<rparr>)"
    by (simp add: run_defs after_reservations_def)
  show ?thesis
    using release_frees_then_notifies [OF h1 h2 h3 h4 refl, of "\<lambda>p. True" main_names]
    by (auto simp: n)
qed

subsection \<open>Release with a stale head of the waitlist\<close>




subsection \<open>Release twice\<close>

text \<open>
  C7, as stated: for every table of the pool, of two releases in a row the second finds
  the table free and changes nothing. In the restaurant with one table, customer 1 is
  seated and customer 2 waits: the first \<open>releaseTable(1)\<close> frees the table and
  \<open>notifyWaitlist\<close> seats customer 2 at it at once, so the second \<open>releaseTable(1)\<close>
  finds the table occupied, prints the release message and frees it again.
\<close>

theorem double_release_counterexample:
  "snd (request_all main_names [1, 2] (Restaurant 1)) =
     \<lparr>tables = [\<lparr>number = 1, isAvailable = False\<rparr>], activeCustomers = [1], waitlist = [2]\<rparr> \<and>
   releaseTable (\<lambda>p. True) main_names 1
     \<lparr>tables = [\<lparr>number = 1, isAvailable = False\<rparr>], activeCustomers = [1], waitlist = [2]\<rparr> =
     ([ReleasedLine 1, ReservedLine 1 ''Lottie''],
      \<lparr>tables = [\<lparr>number = 1, isAvailable = False\<rparr>], activeCustomers = [1, 2], waitlist = []\<rparr>) \<and>
   releaseTable (\<lambda>p. True) main_names 1
     \<lparr>tables = [\<lparr>number = 1, isAvailable = False\<rparr>], activeCustomers = [1, 2], waitlist = []\<rparr> =
     ([ReleasedLine 1],
      \<lparr>tables = [\<lparr>number = 1, isAvailable = True\<rparr>], activeCustomers = [1, 2], waitlist = []\<rparr>)"
  by (simp add: run_defs)

text \<open>
  C7, amended: for every table of the pool (numbers distinct), a release of the table
  while it is free prints that it was already free, changes no state and does not run
  \<open>notifyWaitlist\<close>, whatever the waitlist holds; when the table is occupied and the
  first release grants it to nobody (the waitlist is empty or its head customer no
  longer exists), the first release frees it and the second, immediately after, is such
  a redundant release; and when, in a reachable state, the table is occupied and the head
  customer of the waitlist exists, the first release grants the table to that customer
  at once, so the second release finds the table occupied: it does not print that the
  table was already free, but frees the table again and runs \<open>notifyWaitlist\<close> again.
  No call raises an error.
\<close>

theorem redundant_release_is_noop:
  assumes "distinct (map number (tables r))"
    and "i < length (tables r)" and "number (tables r ! i) = n"
    and "r1 = r\<lparr>tables := (tables r)[i := release (tables r ! i)]\<rparr>"
  shows "(isAvailable (tables r ! i) \<longrightarrow> releaseTable live nm n r = ([AlreadyFreeLine n], r)) \<and>
    (\<not> isAvailable (tables r ! i) \<and> (waitlist r = [] \<or> \<not> live (hd (waitlist r))) \<longrightarrow>
       releaseTable live nm n r = ([ReleasedLine n], r1) \<and>
       releaseTable live nm n r1 = ([AlreadyFreeLine n], r1)) \<and>
    (reachable c (gone, r) \<and> \<not> isAvailable (tables r ! i) \<and> waitlist r = h # q \<and> h \<notin> gone \<and>
     r2 = r\<lparr>activeCustomers := activeCustomers r @ [h],
            waitlist := removeElement_head (h # q)\<rparr> \<longrightarrow>
       releaseTable (\<lambda>x. x \<notin> gone) nm n r = ([ReleasedLine n, ReservedLine n (nm h)], r2) \<and>
       \<not> isAvailable (tables r2 ! i) \<and>
       releaseTable (\<lambda>x. x \<notin> gone) nm n r2 =
         (ReleasedLine n #
            fst (notifyWaitlist (\<lambda>x. x \<notin> gone) nm
                   (r2\<lparr>tables := (tables r2)[i := release (tables r2 ! i)]\<rparr>)),
          snd (notifyWaitlist (\<lambda>x. x \<notin> gone) nm
                   (r2\<lparr>tables := (tables r2)[i := release (tables r2 ! i)]\<rparr>))))"
proof (intro conjI impI)
  assume "isAvailable (tables r ! i)"
  with assms(1-3) show "releaseTable live nm n r = ([AlreadyFreeLine n], r)"
    by (rule releaseTable_free)
next
  assume a: "\<not> isAvailable (tables r ! i) \<and> (waitlist r = [] \<or> \<not> live (hd (waitlist r)))"
  then have "notifyWaitlist live nm r1 = ([], r1)"
    by (cases "waitlist r") (auto simp: assms(4) notify_empty notify_stale)
  with a releaseTable_occupied[OF assms(1-3), of live nm]
  show "releaseTable live nm n r = ([ReleasedLine n], r1)"
    by (simp add: assms(4))
next
  have "distinct (map number (tables r1))"
    using assms(1,2) by (simp add: assms(4) numbers_update_release)
  moreover have "i < length (tables r1)" using assms(2) by (simp add: assms(4))
  moreover have "number (tables r1 ! i) = n" "isAvailable (tables r1 ! i)"
    using assms(2,3) by (simp_all add: assms(4) release_def)
  ultimately show "releaseTable live nm n r1 = ([AlreadyFreeLine n], r1)"
    by (rule releaseTable_free)
next
  assume b: "reachable c (gone, r) \<and> \<not> isAvailable (tables r ! i) \<and> waitlist r = h # q \<and>
     h \<notin> gone \<and>
     r2 = r\<lparr>activeCustomers := activeCustomers r @ [h],
            waitlist := removeElement_head (h # q)\<rparr>"
  then have r2: "r2 = r\<lparr>activeCustomers := activeCustomers r @ [h],
            waitlist := removeElement_head (h # q)\<rparr>" by simp
  from b release_regrants_freed_table[of c gone r i n h q nm] assms(2,3)
  show first: "releaseTable (\<lambda>x. x \<notin> gone) nm n r =
      ([ReleasedLine n, ReservedLine n (nm h)], r2)"
    by simp
  from b show occ: "\<not> isAvailable (tables r2 ! i)" by simp
  have "distinct (map number (tables r2))" "i < length (tables r2)" "number (tables r2 ! i) = n"
    using assms(1-3) by (simp_all add: r2)
  from releaseTable_occupied[OF this occ, of "\<lambda>x. x \<notin> gone" nm]
  show "releaseTable (\<lambda>x. x \<notin> gone) nm n r2 =
         (ReleasedLine n #
            fst (notifyWaitlist (\<lambda>x. x \<notin> gone) nm
                   (r2\<lparr>tables := (tables r2)[i := release (tables r2 ! i)]\<rparr>)),
          snd (notifyWaitlist (\<lambda>x. x \<notin> gone) nm
                   (r2\<lparr>tables := (tables r2)[i := release (tables r2 ! i)]\<rparr>)))"
    by (simp add: case_prod_beta)
qed

theorem redundant_release_is_noop_witness:
  "releaseTable (\<lambda>p. True) main_names 2
      \<lparr>tables = [\<lparr>number = 1, isAvailable = False\<rparr>, \<lparr>number = 2, isAvailable = True\<rparr>],
        activeCustomers = [1, 2], waitlist = [3, 4]\<rparr> =
     ([AlreadyFreeLine 2],
      \<lparr>tables = [\<lparr>number = 1, isAvailable = False\<rparr>, \<lparr>number = 2, isAvailable = True\<rparr>],
        activeCustomers = [1, 2], waitlist = [3, 4]\<rparr>) \<and>
   releaseTable (\<lambda>p. p \<noteq> 3) main_names 2 after_reservations =
     ([ReleasedLine 2],
      \<lparr>tables = [\<lparr>number = 1, isAvailable = False\<rparr>, \<lparr>number = 2, isAvailable = True\<rparr>],
        activeCustomers = [1, 2], waitlist = [3, 4]\<rparr>) \<and>
   releaseTable (\<lambda>p. p \<noteq> 3) main_names 2
      \<lparr>tables = [\<lparr>number = 1, isAvailable = False\<rparr>, \<lparr>number = 2, isAvailable = True\<rparr>],
        activeCustomers = [1, 2], waitlist = [3, 4]\<rparr> =
     ([AlreadyFreeLine 2],
      \<lparr>tables = [\<lparr>number = 1, isAvailable = False\<rparr>, \<lparr>number = 2, isAvailable = True\<rparr>],
        activeCustomers = [1, 2], waitlist = [3, 4]\<rparr>) \<and>
   releaseTable (\<lambda>x. x \<notin> {}) main_names 1 after_reservations =
     ([ReleasedLine 1, ReservedLine 1 ''Nathan''],
      \<lparr>tables = [\<lparr>number = 1, isAvailable = False\<rparr>, \<lparr>number = 2, isAvailable = False\<rparr>],
        activeCustomers = [1, 2, 3], waitlist = [4]\<rparr>) \<and>
   releaseTable (\<lambda>x. x \<notin> {}) main_names 1
      \<lparr>tables = [\<lparr>number = 1, isAvailable = False\<rparr>, \<lparr>number = 2, isAvailable = False\<rparr>],
        activeCustomers = [1, 2, 3], waitlist = [4]\<rparr> =
     ([ReleasedLine 1, ReservedLine 1 ''Dai''],
      \<lparr>tables = [\<lparr>number = 1, isAvailable = False\<rparr>, \<lparr>number = 2, isAvailable = False\<rparr>],
        activeCustomers = [1, 2, 3, 4], waitlist = []\<rparr>)"
proof -
  let ?freed = "\<lparr>tables = [\<lparr>number = 1, isAvailable = False\<rparr>, \<lparr>number = 2, isAvailable = True\<rparr>],
        activeCustomers = [1, 2], waitlist = [3, 4]\<rparr>"
  let ?seated = "\<lparr>tables = [\<lparr>number = 1, isAvailable = False\<rparr>, \<lparr>number = 2, isAvailable = False\<rparr>],
        activeCustomers = [1, 2, 3], waitlist = [4]\<rparr>"
  have h1: "distinct (map number (tables after_reservations))"
    and h2: "1 < length (tables after_reservations)"
    and h3: "number (tables after_reservations ! 1) = 2"
    and h4: "\<not> isAvailable (tables after_reservations ! 1) \<and>
      (waitlist after_reservations = [] \<or> \<not> hd (waitlist after_reservations) \<noteq> 3)"
    and k2: "0 < length (tables after_reservations)"
    and k3: "number (tables after_reservations ! 0) = 1"
    by (simp_all add: after_reservations_def)
  have e: "after_reservations\<lparr>tables :=
      (tables after_reservations)[1 := release (tables after_reservations ! 1)]\<rparr> = ?freed"
    by (simp add: after_reservations_def release_def)
  have stale: "releaseTable (\<lambda>p. p \<noteq> 3) main_names 2 after_reservations = ([ReleasedLine 2], ?freed) \<and>
      releaseTable (\<lambda>p. p \<noteq> 3) main_names 2 ?freed = ([AlreadyFreeLine 2], ?freed)"
    using redundant_release_is_noop [OF h1 h2 h3 refl, of "\<lambda>p. p \<noteq> 3" main_names] h4
    unfolding e by blast
  have f1: "distinct (map number (tables ?freed))" and f2: "1 < length (tables ?freed)"
    and f3: "number (tables ?freed ! 1) = 2" and f4: "isAvailable (tables ?freed ! 1)"
    by simp_all
  have free: "releaseTable (\<lambda>p. True) main_names 2 ?freed = ([AlreadyFreeLine 2], ?freed)"
    using redundant_release_is_noop [OF f1 f2 f3 refl, of "\<lambda>p. True" main_names] f4 by blast
  have k4: "reachable 2 ({}, after_reservations) \<and> \<not> isAvailable (tables after_reservations ! 0) \<and>
      waitlist after_reservations = 3 # [4] \<and> 3 \<notin> {} \<and>
      ?seated = after_reservations\<lparr>activeCustomers := activeCustomers after_reservations @ [3],
            waitlist := removeElement_head (3 # [4])\<rparr>"
    using reachable_after_reservations by (simp add: after_reservations_def)
  have n: "notifyWaitlist (\<lambda>x. x \<notin> {}) main_names
      (?seated\<lparr>tables := (tables ?seated)[0 := release (tables ?seated ! 0)]\<rparr>) =
      ([ReservedLine 1 ''Dai''],
       \<lparr>tables = [\<lparr>number = 1, isAvailable = False\<rparr>, \<lparr>number = 2, isAvailable = False\<rparr>],
         activeCustomers = [1, 2, 3, 4], waitlist = []\<rparr>)"
    by (simp add: run_defs)
  have live: "releaseTable (\<lambda>x. x \<notin> {}) main_names 1 after_reservations =
       ([ReleasedLine 1, ReservedLine 1 ''Nathan''], ?seated) \<and>
     releaseTable (\<lambda>x. x \<notin> {}) main_names 1 ?seated =
       ([ReleasedLine 1, ReservedLine 1 ''Dai''],
        \<lparr>tables = [\<lparr>number = 1, isAvailable = False\<rparr>, \<lparr>number = 2, isAvailable = False\<rparr>],
          activeCustomers = [1, 2, 3, 4], waitlist = []\<rparr>)"
    using redundant_release_is_noop
      [OF h1 k2 k3 refl, where c = 2 and gone = "{}" and h = 3 and q = "[4]" and ?r2.0 = ?seated
         and nm = main_names] k4
    unfolding n by (simp add: main_names_def)
  from free stale live show ?thesis by blast
qed

subsection \<open>Construction\<close>

text \<open>
  C8, as stated: construction with a negative capacity fails with an error. The
  constructor has no check: its loop does not run and the result is the empty restaurant.
\<close>

theorem negative_capacity_counterexample:
  "Restaurant (- 1) = \<lparr>tables = [], activeCustomers = [], waitlist = []\<rparr>"
  by (simp add: Restaurant_eq)

text \<open>
  C8, amended: constructing a restaurant with capacity \<open>c\<close> builds the tables numbered
  \<open>1..c\<close>, all free, \<open>c\<close> of them for \<open>c \<ge> 0\<close>, with no active customers and an
  empty waitlist; a capacity \<open>c < 0\<close> is accepted and gives the same empty restaurant as
  \<open>c = 0\<close>; and in every state reached from a restaurant of capacity \<open>c \<le> 0\<close>,
  \<open>reserveTable\<close> puts the customer on the waitlist.
\<close>

theorem construction_builds_pool:
  "tables (Restaurant c) = map Table [1..c] \<and>
   map number (tables (Restaurant c)) = [1..c] \<and>
   length (tables (Restaurant c)) = nat c \<and>
   activeCustomers (Restaurant c) = [] \<and> waitlist (Restaurant c) = [] \<and>
   (c \<le> 0 \<longrightarrow> Restaurant c = Restaurant 0 \<and>
     (reachable c (gone, r) \<longrightarrow>
        reserveTable nm p r = (False, [WaitlistedLine (nm p)], r\<lparr>waitlist := waitlist r @ [p]\<rparr>)))"
proof -
  have "reserveTable nm p r = (False, [WaitlistedLine (nm p)], r\<lparr>waitlist := waitlist r @ [p]\<rparr>)"
    if "c \<le> 0" "reachable c (gone, r)"
  proof -
    from that(2) have "map number (tables r) = [1..c]"
      unfolding reachable_def by (drule_tac reachable_numbers) simp
    with that(1) have "tables r = []" by simp
    then show ?thesis by (simp add: reserveTable_def)
  qed
  moreover have "c \<le> 0 \<Longrightarrow> Restaurant c = Restaurant 0" by (simp add: Restaurant_eq)
  moreover have "tables (Restaurant c) = map Table [1..c]" by (rule tables_Restaurant)
  moreover have "map number (tables (Restaurant c)) = [1..c]" by (rule numbers_Restaurant)
  moreover have "length (tables (Restaurant c)) = nat c" by (simp add: tables_Restaurant)
  moreover have "activeCustomers (Restaurant c) = []" "waitlist (Restaurant c) = []"
    by (simp_all add: Restaurant_def)
  ultimately show ?thesis by blast
qed

theorem construction_builds_pool_witness:
  "Restaurant 0 = \<lparr>tables = [], activeCustomers = [], waitlist = []\<rparr> \<and>
   reserveTable main_names 1 (Restaurant 0) =
     (False, [WaitlistedLine ''Morgan''], \<lparr>tables = [], activeCustomers = [], waitlist = [1]\<rparr>)"
proof -
  have h1: "(0::int) \<le> 0" by simp
  have h2: "reachable 0 ({}, Restaurant 0)"
    unfolding reachable_def by (rule reachable_if.construct)
  show ?thesis
    using construction_builds_pool [of 0 "{}" "Restaurant 0" main_names 1] h1 h2
    by (simp add: Restaurant_eq main_names_def)
qed

subsection \<open>Granting\<close>

text \<open>
  C1. In every state \<open>reserveTable\<close> scans the tables in the order of the pool and grants
  the first available one: when \<open>t\<close> is the first available table the call returns
  \<open>true\<close>, reports the number of \<open>t\<close>, marks \<open>t\<close> occupied and appends the customer to
  \<open>activeCustomers\<close>, and where the pool is in the order of its numbers, as it is built,
  no available table has a lower number than \<open>t\<close>; when no table is available the call
  returns \<open>false\<close> and appends the customer to the end of the waitlist. In a new
  restaurant of capacity \<open>c\<close>, any run of at most \<open>c\<close> requests is granted the tables
  \<open>1, 2, ...\<close> in turn, distinct, each the lowest free number at its call (the tables
  before it are occupied and the ones after it free), and after \<open>c\<close> requests the next
  one is refused and its customer is the one entry of the waitlist.
\<close>

theorem request_grants_lowest_free:
  "(tables r = pre @ t # post \<and> (\<forall>u\<in>set pre. \<not> isAvailable u) \<and> isAvailable t \<longrightarrow>
      reserveTable nm p r =
        (True, [ReservedLine (number t) (nm p)],
         r\<lparr>tables := pre @ reserve t # post, activeCustomers := activeCustomers r @ [p]\<rparr>) \<and>
      (sorted (map number (tables r)) \<longrightarrow>
         (\<forall>u\<in>set (tables r). isAvailable u \<longrightarrow> number t \<le> number u))) \<and>
   ((\<forall>u\<in>set (tables r'). \<not> isAvailable u) \<longrightarrow>
      reserveTable nm p r' =
        (False, [WaitlistedLine (nm p)], r'\<lparr>waitlist := waitlist r' @ [p]\<rparr>)) \<and>
   (length ps \<le> nat c \<longrightarrow>
      request_all nm ps (Restaurant c) =
        (map (\<lambda>(j, p). (True, [ReservedLine j (nm p)])) (zip [1..c] ps),
         \<lparr>tables = map (\<lambda>j. reserve (Table j)) (take (length ps) [1..c]) @
                     map Table (drop (length ps) [1..c]),
          activeCustomers = ps, waitlist = []\<rparr>)) \<and>
   (length ps = nat c \<longrightarrow>
      request_all nm (ps @ [q]) (Restaurant c) =
        (map (\<lambda>(j, p). (True, [ReservedLine j (nm p)])) (zip [1..c] ps) @
           [(False, [WaitlistedLine (nm q)])],
         \<lparr>tables = map (\<lambda>j. reserve (Table j)) [1..c], activeCustomers = ps, waitlist = [q]\<rparr>))"
proof (intro conjI impI)
  assume a: "tables r = pre @ t # post \<and> (\<forall>u\<in>set pre. \<not> isAvailable u) \<and> isAvailable t"
  then show "reserveTable nm p r =
        (True, [ReservedLine (number t) (nm p)],
         r\<lparr>tables := pre @ reserve t # post, activeCustomers := activeCustomers r @ [p]\<rparr>)"
    by (simp add: reserveTable_first)
  assume "sorted (map number (tables r))"
  with a show "\<forall>u\<in>set (tables r). isAvailable u \<longrightarrow> number t \<le> number u"
    using first_free_is_lowest[of r pre t post] by blast
next
  assume "\<forall>u\<in>set (tables r'). \<not> isAvailable u"
  then show "reserveTable nm p r' =
      (False, [WaitlistedLine (nm p)], r'\<lparr>waitlist := waitlist r' @ [p]\<rparr>)"
    by (rule reserveTable_none)
next
  assume "length ps \<le> nat c"
  then show "request_all nm ps (Restaurant c) =
        (map (\<lambda>(j, p). (True, [ReservedLine j (nm p)])) (zip [1..c] ps),
         \<lparr>tables = map (\<lambda>j. reserve (Table j)) (take (length ps) [1..c]) @
                     map Table (drop (length ps) [1..c]),
          activeCustomers = ps, waitlist = []\<rparr>)"
    by (rule request_all_Restaurant)
next
  assume "length ps = nat c"
  then show "request_all nm (ps @ [q]) (Restaurant c) =
        (map (\<lambda>(j, p). (True, [ReservedLine j (nm p)])) (zip [1..c] ps) @
           [(False, [WaitlistedLine (nm q)])],
         \<lparr>tables = map (\<lambda>j. reserve (Table j)) [1..c], activeCustomers = ps, waitlist = [q]\<rparr>)"
    by (rule request_all_overflow)
qed

theorem request_grants_lowest_free_witness:
  "reserveTable main_names 4
     \<lparr>tables = [\<lparr>number = 1, isAvailable = False\<rparr>, \<lparr>number = 2, isAvailable = True\<rparr>,
                \<lparr>number = 3, isAvailable = True\<rparr>],
      activeCustomers = [1], waitlist = []\<rparr> =
     (True, [ReservedLine 2 ''Dai''],
      \<lparr>tables = [\<lparr>number = 1, isAvailable = False\<rparr>, \<lparr>number = 2, isAvailable = False\<rparr>,
                 \<lparr>number = 3, isAvailable = True\<rparr>],
       activeCustomers = [1, 4], waitlist = []\<rparr>) \<and>
   reserveTable main_names 4 after_reservations =
     (False, [WaitlistedLine ''Dai''],
      \<lparr>tables = [\<lparr>number = 1, isAvailable = False\<rparr>, \<lparr>number = 2, isAvailable = False\<rparr>],
       activeCustomers = [1, 2], waitlist = [3, 4, 4]\<rparr>) \<and>
   request_all main_names [1, 2] (Restaurant 2) =
     ([(True, [ReservedLine 1 ''Morgan'']), (True, [ReservedLine 2 ''Lottie''])],
      \<lparr>tables = [\<lparr>number = 1, isAvailable = False\<rparr>, \<lparr>number = 2, isAvailable = False\<rparr>],
       activeCustomers = [1, 2], waitlist = []\<rparr>) \<and>
   request_all main_names [1, 2, 3] (Restaurant 2) =
     ([(True, [ReservedLine 1 ''Morgan'']), (True, [ReservedLine 2 ''Lottie'']),
       (False, [WaitlistedLine ''Nathan''])],
      \<lparr>tables = [\<lparr>number = 1, isAvailable = False\<rparr>, \<lparr>number = 2, isAvailable = False\<rparr>],
       activeCustomers = [1, 2], waitlist = [3]\<rparr>)"
proof -
  let ?r = "\<lparr>tables = [\<lparr>number = 1, isAvailable = False\<rparr>, \<lparr>number = 2, isAvailable = True\<rparr>,
                \<lparr>number = 3, isAvailable = True\<rparr>],
      activeCustomers = [1], waitlist = []\<rparr>"
  have h1: "tables ?r = [\<lparr>number = 1, isAvailable = False\<rparr>] @ \<lparr>number = 2, isAvailable = True\<rparr> #
        [\<lparr>number = 3, isAvailable = True\<rparr>] \<and>
      (\<forall>u\<in>set [\<lparr>number = 1, isAvailable = False\<rparr>]. \<not> isAvailable u) \<and>
      isAvailable \<lparr>number = 2, isAvailable = True\<rparr>"
    by simp
  have h2: "\<forall>u\<in>set (tables after_reservations). \<not> isAvailable u"
    by (simp add: after_reservations_def)
  have h3: "length [1, 2 :: customer] \<le> nat 2" and h4: "length [1, 2 :: customer] = nat 2"
    by simp_all
  show ?thesis
    using request_grants_lowest_free
      [where r = ?r and pre = "[\<lparr>number = 1, isAvailable = False\<rparr>]"
         and t = "\<lparr>number = 2, isAvailable = True\<rparr>"
         and post = "[\<lparr>number = 3, isAvailable = True\<rparr>]"
         and nm = main_names and p = 4 and r' = after_reservations
         and ps = "[1, 2]" and c = 2 and q = 3]
      h1 h2 h3 h4
    by (simp add: after_reservations_def main_names_def reserve_def Table_def upto_rec1)
qed

subsection \<open>Holders and the pool\<close>

text \<open>
  C3, as stated: in every reachable state there are at most as many holders as tables.
  In the restaurant with one table, customer 1 is seated, table 1 is released, and
  customer 2 is seated: \<open>activeCustomers\<close> lists both customers, the pool has one table.
\<close>

theorem holders_exceed_pool_counterexample:
  "reachable 1
     ({}, \<lparr>tables = [\<lparr>number = 1, isAvailable = False\<rparr>], activeCustomers = [1, 2], waitlist = []\<rparr>) \<and>
   length (activeCustomers
     \<lparr>tables = [\<lparr>number = 1, isAvailable = False\<rparr>], activeCustomers = [1, 2], waitlist = []\<rparr>) = 2 \<and>
   length (tables
     \<lparr>tables = [\<lparr>number = 1, isAvailable = False\<rparr>], activeCustomers = [1, 2], waitlist = []\<rparr>) = 1"
proof -
  have a: "reachable_if (\<lambda>p r. True) 1 ({}, snd (request_all main_names [1] (Restaurant 1)))"
    by (rule reachable_request_all) (simp_all add: reachable_if.construct)
  have b: "reachable_if (\<lambda>p r. True) 1
      ({}, snd (releaseTable (\<lambda>x. x \<notin> {}) main_names 1
                 (snd (request_all main_names [1] (Restaurant 1)))))"
    using a by (rule reachable_if.release)
  have "reachable_if (\<lambda>p r. True) 1
      ({}, snd (request_all main_names [2]
             (snd (releaseTable (\<lambda>x. x \<notin> {}) main_names 1
                 (snd (request_all main_names [1] (Restaurant 1)))))))"
    using b by (rule reachable_request_all) simp
  then show ?thesis by (simp add: reachable_def run_defs)
qed

text \<open>
  C3, amended: in every state reachable by calls of \<open>reserveTable\<close>, \<open>releaseTable\<close> and
  \<open>printWaitlist\<close>, the number of occupied tables is at most the number of holders and
  at most the size of the pool, which stays the capacity; the holders themselves are
  never removed and can outnumber the pool.
\<close>

theorem occupied_at_most_holders:
  "reachable c (gone, r) \<Longrightarrow>
   occupied (tables r) \<le> length (activeCustomers r) \<and>
   occupied (tables r) \<le> length (tables r) \<and> length (tables r) = nat c"
proof -
  assume "reachable c (gone, r)"
  then have r: "reachable_if (\<lambda>p r. True) c (gone, r)" by (simp add: reachable_def)
  from reachable_occupied[OF r] have "occupied (tables r) \<le> length (activeCustomers r)" by simp
  moreover have "occupied (tables r) \<le> length (tables r)" by (simp add: occupied_def)
  moreover from reachable_numbers[OF r] have "length (map number (tables r)) = length [1..c]"
    by simp
  then have "length (tables r) = nat c" by simp
  ultimately show ?thesis by simp
qed

theorem occupied_at_most_holders_witness:
  "reachable 2 ({}, after_reservations) \<and> occupied (tables after_reservations) = 2 \<and>
   length (activeCustomers after_reservations) = 2 \<and> length (tables after_reservations) = 2"
  using occupied_at_most_holders [OF reachable_after_reservations] reachable_after_reservations
  by (simp add: after_reservations_def occupied_def)

subsection \<open>Customers seated and waiting\<close>

text \<open>
  C9, as stated: in every reachable state a customer is in at most one of
  \<open>activeCustomers\<close> and \<open>waitlist\<close>. In the restaurant with one table, two calls of
  \<open>reserveTable\<close> for the same customer seat it and then put it on the waitlist.
\<close>

theorem customer_seated_and_waiting_counterexample:
  "reachable 1
     ({}, \<lparr>tables = [\<lparr>number = 1, isAvailable = False\<rparr>], activeCustomers = [1], waitlist = [1]\<rparr>) \<and>
   1 \<in> set (activeCustomers
     \<lparr>tables = [\<lparr>number = 1, isAvailable = False\<rparr>], activeCustomers = [1], waitlist = [1]\<rparr>) \<and>
   1 \<in> set (waitlist
     \<lparr>tables = [\<lparr>number = 1, isAvailable = False\<rparr>], activeCustomers = [1], waitlist = [1]\<rparr>)"
proof -
  have "reachable_if (\<lambda>p r. True) 1 ({}, snd (request_all main_names [1, 1] (Restaurant 1)))"
    by (rule reachable_request_all) (simp_all add: reachable_if.construct)
  then show ?thesis by (simp add: reachable_def run_defs)
qed

text \<open>
  C9, amended: in every state reachable by calls of \<open>reserveTable\<close>, \<open>releaseTable\<close> and
  \<open>printWaitlist\<close> in which \<open>reserveTable\<close> is called only for a customer who is at that
  moment neither in \<open>activeCustomers\<close> nor in \<open>waitlist\<close>, each customer is in at most
  one of the two, and at most once in each.
\<close>

theorem customers_listed_once:
  "reachable_if absent c (gone, r) \<Longrightarrow>
   distinct (activeCustomers r) \<and> distinct (waitlist r) \<and>
   set (activeCustomers r) \<inter> set (waitlist r) = {}"
  by (drule reachable_distinct_customers) simp

theorem customers_listed_once_witness:
  "reachable_if absent 1
     ({}, \<lparr>tables = [\<lparr>number = 1, isAvailable = False\<rparr>], activeCustomers = [1, 2], waitlist = [3]\<rparr>) \<and>
   distinct [1, 2, 3 :: customer]"
proof -
  let ?a = "Restaurant 1"
  let ?b = "snd (snd (reserveTable main_names 1 ?a))"
  let ?c = "snd (snd (reserveTable main_names 2 ?b))"
  let ?d = "snd (snd (reserveTable main_names 3 ?c))"
  let ?e = "snd (releaseTable (\<lambda>x. x \<notin> {}) main_names 1 ?d)"
  have a: "reachable_if absent 1 ({}, ?a)" by (rule reachable_if.construct)
  have b: "reachable_if absent 1 ({}, ?b)"
    using a by (rule reachable_if.request) (simp_all add: absent_def run_defs)
  have c: "reachable_if absent 1 ({}, ?c)"
    using b by (rule reachable_if.request) (simp_all add: absent_def run_defs)
  have d: "reachable_if absent 1 ({}, ?d)"
    using c by (rule reachable_if.request) (simp_all add: absent_def run_defs)
  have "reachable_if absent 1 ({}, ?e)"
    using d by (rule reachable_if.release)
  then have e: "reachable_if absent 1
     ({}, \<lparr>tables = [\<lparr>number = 1, isAvailable = False\<rparr>], activeCustomers = [1, 2], waitlist = [3]\<rparr>)"
    by (simp add: run_defs)
  show ?thesis using customers_listed_once [OF e] e by simp
qed

subsection \<open>The entry of the customer granted on release\<close>


end
